theory Spec2Isabelle
  imports Complex_Main "HOL-Library.Word"
begin

unbundle bit_operations_syntax

section \<open>Styled cells\<close>

text \<open>
  Modelled from the spec: the type \<open>chtype\<close> and the macros \<open>A_CHARTEXT\<close>,
  \<open>A_ATTRIBUTES\<close> and \<open>A_STANDOUT\<close> that \<open>watch.c\<close> uses come from \<open>ncurses.h\<close>,
  which is not part of the repository. The spec has a cell pack a display character and a
  set of attribute bits, "highlighted" among them, into one word. The values are the ones
  ncurses gives them for its 32-bit \<open>chtype\<close> (\<open>NCURSES_ATTR_SHIFT = 8\<close>):
  \<open>A_CHARTEXT = (1 << 8) - 1\<close>, \<open>A_ATTRIBUTES = ~0 << 8\<close>, \<open>A_STANDOUT = 1 << 16\<close>.
\<close>

type_synonym chtype = "32 word"
type_synonym byte = "8 word"

definition A_CHARTEXT :: chtype where
  "A_CHARTEXT = 0xFF"

definition A_ATTRIBUTES :: chtype where
  "A_ATTRIBUTES = 0xFFFFFF00"

definition A_STANDOUT :: chtype where
  "A_STANDOUT = 0x10000"

text \<open>
  \<open>command_output[command_output_length + i] = buffer[i]\<close> converts a plain \<open>char\<close> to
  \<open>chtype\<close>. Whether plain \<open>char\<close> is signed is fixed by the platform (signed on
  x86 Linux, unsigned on ARM Linux), so it is a parameter: a signed \<open>char\<close> is
  sign-extended, an unsigned one zero-extended.
\<close>

definition chtype_of_char :: "bool \<Rightarrow> byte \<Rightarrow> chtype" where
  "chtype_of_char char_signed b = (if char_signed then scast b else ucast b)"

section \<open>Difference annotation\<close>

text \<open>
  The body of the comparison loop (lines 389 to 397) for one offset: \<open>p\<close> is the cell of
  the previous output, \<open>c\<close> the new cell.
\<close>

definition annotate_cell :: "bool \<Rightarrow> chtype \<Rightarrow> chtype \<Rightarrow> chtype" where
  "annotate_cell cumulative p c =
     (let c1 = (if c AND A_CHARTEXT \<noteq> p AND A_CHARTEXT then c OR A_STANDOUT else c)
      in if cumulative then c1 OR (p AND A_ATTRIBUTES) else c1)"

text \<open>
  The loop of line 388, from any first offset \<open>i\<close>:
  \<open>for (i = ...; i < command_output_length && i < previous_command_output_length; i++)\<close>.
\<close>

function annotate_loop :: "bool \<Rightarrow> chtype list \<Rightarrow> chtype list \<Rightarrow> nat \<Rightarrow> chtype list" where
  "annotate_loop cumulative prev out i =
     (if i < length out \<and> i < length prev
      then annotate_loop cumulative prev (out[i := annotate_cell cumulative (prev ! i) (out ! i)]) (Suc i)
      else out)"
  by pat_completeness auto
termination
  by (relation "measure (\<lambda>(cumulative, prev, out, i). length out - i)") auto

declare annotate_loop.simps [simp del]

text \<open>
  Lines 380 to 399: the bytes of one \<open>fread\<close> are appended as cells, and the new span,
  which starts at \<open>command_output_length - bytes_read\<close>, is compared against the previous
  output when \<open>option_differences\<close> is set and \<open>previous_command_output\<close> is not
  \<open>NULL\<close> (\<open>None\<close>).
\<close>

definition append_output ::
  "bool \<Rightarrow> bool \<Rightarrow> bool \<Rightarrow> chtype list option \<Rightarrow> chtype list \<Rightarrow> byte list \<Rightarrow> chtype list" where
  "append_output char_signed differences cumulative previous out buffer =
     (let out' = out @ map (chtype_of_char char_signed) buffer
      in case previous of
           None \<Rightarrow> out'
         | Some prev \<Rightarrow>
             if differences then annotate_loop cumulative prev out' (length out' - length buffer)
             else out')"

text \<open>
  The buffer at the end of a run: \<open>rerun\<close> below has kept \<open>prev\<close> as the previous output
  and emptied the buffer, and the reads of the run returned \<open>reads\<close> in turn.
\<close>

definition run_output ::
  "bool \<Rightarrow> bool \<Rightarrow> bool \<Rightarrow> chtype list \<Rightarrow> byte list list \<Rightarrow> chtype list" where
  "run_output char_signed differences cumulative prev reads =
     foldl (append_output char_signed differences cumulative (Some prev)) [] reads"

section \<open>The interval option\<close>

text \<open>
  \<open>interval\<close> is a C \<open>double\<close>, modelled by its value: a real number, an infinity or
  NaN. Comparisons of two doubles are exact and follow IEEE 754: every comparison with
  NaN is false. The literal \<open>0.1\<close> is read as the real number one tenth. Arithmetic
  that rounds (the product of line 456) is not computed here: see \<open>interval_passed\<close>
  below.
\<close>

datatype double = Finite real | PosInf | NegInf | NaN

fun double_less :: "double \<Rightarrow> double \<Rightarrow> bool" where
  "double_less NaN b = False"
| "double_less a NaN = False"
| "double_less a NegInf = False"
| "double_less NegInf b = True"
| "double_less PosInf b = False"
| "double_less a PosInf = True"
| "double_less (Finite a) (Finite b) = (a < b)"

fun double_le :: "double \<Rightarrow> double \<Rightarrow> bool" where
  "double_le NaN b = False"
| "double_le a NaN = False"
| "double_le NegInf b = True"
| "double_le a NegInf = False"
| "double_le a PosInf = True"
| "double_le PosInf b = False"
| "double_le (Finite a) (Finite b) = (a \<le> b)"

text \<open>\<open>~0u/1000000\<close>: unsigned 32-bit arithmetic, so the quotient is the integer 4294.\<close>

definition interval_max :: "32 word" where
  "interval_max = (NOT 0) div 1000000"

definition double_of_uint :: "32 word \<Rightarrow> double" where
  "double_of_uint u = Finite (real (unat u))"

text \<open>Lines 181 to 184, applied to the value \<open>strtod\<close> returned.\<close>

definition clamp_interval :: "double \<Rightarrow> double" where
  "clamp_interval v =
     (let i1 = (if double_less v (Finite 0.1) then Finite 0.1 else v);
          i2 = (if double_less (double_of_uint interval_max) i1 then double_of_uint interval_max else i1)
      in i2)"

section \<open>Program state\<close>

datatype tty_mode = Original | Curses

text \<open>
  How the process ends: \<open>Exit status mode\<close> is a call of \<open>exit(status)\<close> that leaves the
  terminal in \<open>mode\<close>; \<open>Fault\<close> is undefined behaviour of the C program (a \<open>NULL\<close>
  stream or a copy into a \<open>NULL\<close> buffer).
\<close>

datatype outcome = Exit int tty_mode | Fault

text \<open>
  The stream of \<open>popen\<close>: the bytes the command has still to deliver and the end-of-file
  indicator of the \<open>FILE\<close>.
\<close>

record pipe =
  pending :: "byte list"
  at_eof :: bool

text \<open>
  The globals of \<open>watch.c\<close> and the locals of \<open>main\<close> that live across iterations of
  the main loop, the two platform parameters (\<open>char_signed\<close>, \<open>force_8bit\<close>), and the
  terminal: its mode, and the \<open>addch\<close> calls since the last \<open>clear()\<close> as
  (row, column, cell).
\<close>

record watch_state =
  curses_started :: bool
  height :: int
  width :: int
  screen_size_changed :: bool
  show_title :: int
  incoming_cols :: int
  incoming_rows :: int
  option_differences :: bool
  option_differences_cumulative :: bool
  option_paging :: bool
  interval :: double
  char_signed :: bool
  force_8bit :: bool
  command_pipe :: "pipe option"
  command_output :: "chtype list"
  previous_command_output :: "chtype list option"
  time_then :: "64 word"
  rerun_command :: bool
  max_y :: int
  origin_x :: int
  origin_y :: int
  view_changed :: bool
  go_to_end :: bool
  terminal :: tty_mode
  screen :: "(int \<times> int \<times> chtype) list"

text \<open>
  What one iteration of the main loop receives from outside the program.
  \<open>interval_passed d i\<close> is the value of the comparison
  \<open>time_now - time_then >= interval * 1000000\<close> of line 456 for the unsigned difference
  \<open>d\<close> and the interval \<open>i\<close>. The code evaluates it in \<open>double\<close> arithmetic: the
  difference is converted and the product is rounded, as the platform's floating point
  does. That rounding is not modelled, so the comparison is taken from outside.
\<close>

record tick_env =
  winsize :: "(nat \<times> nat) option"
  popen_result :: "byte list option"
  malloc_ok :: "nat \<Rightarrow> bool"
  realloc_ok :: "nat \<Rightarrow> bool"
  getch_result :: int
  gettimeofday_result :: "64 word option"
  interval_passed :: "64 word \<Rightarrow> double \<Rightarrow> bool"

section \<open>Leaving the program\<close>

text \<open>\<open>do_exit\<close> (lines 66 to 71) calls \<open>endwin()\<close> when curses was started.\<close>

definition do_exit :: "watch_state \<Rightarrow> int \<Rightarrow> outcome" where
  "do_exit st status = Exit status (if curses_started st then Original else terminal st)"

text \<open>A direct call of \<open>exit\<close>: the terminal stays as it is.\<close>

definition c_exit :: "watch_state \<Rightarrow> int \<Rightarrow> outcome" where
  "c_exit st status = Exit status (terminal st)"

text \<open>
  Option \<open>-n\<close> (lines 175 to 186). \<open>strtod\<close> is libc's: its result, the value and the
  unparsed rest of \<open>optarg\<close>, is a parameter. \<open>do_usage\<close> exits with status 1 before
  curses is started.
\<close>

definition option_n :: "string \<Rightarrow> double \<times> string \<Rightarrow> outcome + double" where
  "option_n optarg strtod_result =
     (case strtod_result of (v, str) \<Rightarrow>
        if optarg = [] \<or> str \<noteq> [] then Inl (Exit 1 Original)
        else Inr (clamp_interval v))"

section \<open>Terminal size\<close>

text \<open>
  \<open>get_terminal_size\<close> (lines 93 to 139) as the main loop calls it. The two \<open>getenv\<close>
  blocks run only while \<open>incoming_cols\<close> and \<open>incoming_rows\<close> are 0, which the call
  before the loop ends; they are left out, as are \<open>old_height\<close> and \<open>old_width\<close>, which
  nothing reads. \<open>ws\<close> is the result of the \<open>ioctl\<close>, \<open>None\<close> when it fails.
\<close>

definition get_terminal_size :: "(nat \<times> nat) option \<Rightarrow> watch_state \<Rightarrow> watch_state" where
  "get_terminal_size ws st =
     (if incoming_cols st < 0 \<or> incoming_rows st < 0 then
        (case ws of
           None \<Rightarrow> st
         | Some (ws_row, ws_col) \<Rightarrow>
             (let st1 = (if incoming_rows st < 0 \<and> ws_row > 0 then st\<lparr>height := int ws_row\<rparr> else st);
                  st2 = (if incoming_cols st < 0 \<and> ws_col > 0 then st1\<lparr>width := int ws_col\<rparr> else st1)
              in st2))
      else st)"

section \<open>Viewport and paging\<close>

text \<open>Lines 277 to 280.\<close>

definition clamp_viewport :: "watch_state \<Rightarrow> watch_state" where
  "clamp_viewport st =
     (if max_y st \<noteq> - 1
      then st\<lparr>origin_y := (if origin_y st > max_y st - height st then max_y st - height st else origin_y st)\<rparr>
      else st)"

text \<open>
  Modelled from the spec: the key codes and \<open>ERR\<close> are macros of \<open>ncurses.h\<close>, which is
  not part of the repository. The spec names the keys only (arrows, page-up, page-down);
  the values are those of ncurses (octal 0402, 0403, 0404, 0405, 0522, 0523, and -1).
\<close>

definition KEY_DOWN :: int where "KEY_DOWN = 258"
definition KEY_UP :: int where "KEY_UP = 259"
definition KEY_LEFT :: int where "KEY_LEFT = 260"
definition KEY_RIGHT :: int where "KEY_RIGHT = 261"
definition KEY_NPAGE :: int where "KEY_NPAGE = 338"
definition KEY_PPAGE :: int where "KEY_PPAGE = 339"
definition ERR :: int where "ERR = - 1"

text \<open>
  The \<open>switch (c)\<close> of lines 409 to 447; \<open>'g'\<close> is 103 and \<open>'G'\<close> is 71.
  \<open>origin_x\<close> and \<open>origin_y\<close> are C \<open>int\<close>s; they are modelled as unbounded integers
  (signed overflow is undefined in C).
\<close>

definition handle_key :: "int \<Rightarrow> watch_state \<Rightarrow> watch_state" where
  "handle_key c st =
     (if c = KEY_UP then
        st\<lparr>origin_y := (if origin_y st - 8 \<ge> 0 then origin_y st - 8 else 0), view_changed := True\<rparr>
      else if c = KEY_RIGHT then
        st\<lparr>origin_x := origin_x st + 8, view_changed := True\<rparr>
      else if c = KEY_DOWN then
        st\<lparr>origin_y := origin_y st + 8, view_changed := True\<rparr>
      else if c = KEY_LEFT then
        st\<lparr>origin_x := (if origin_x st - 8 \<ge> 0 then origin_x st - 8 else 0), view_changed := True\<rparr>
      else if c = KEY_NPAGE then
        st\<lparr>origin_y := origin_y st + (height st - show_title st), view_changed := True\<rparr>
      else if c = KEY_PPAGE then
        st\<lparr>origin_y := (if origin_y st - (height st - show_title st) \<ge> 0
                         then origin_y st - (height st - show_title st) else 0),
           view_changed := True\<rparr>
      else if c = 103 then
        st\<lparr>origin_x := 0, origin_y := 0, view_changed := True\<rparr>
      else if c = 71 then
        st\<lparr>origin_x := 0, go_to_end := True, view_changed := True\<rparr>
      else st)"

text \<open>Lines 406 to 448: \<open>c\<close> is what \<open>getch()\<close> returns.\<close>

definition paging_input :: "int \<Rightarrow> watch_state \<Rightarrow> watch_state" where
  "paging_input c st =
     (let st0 = st\<lparr>view_changed := False\<rparr>
      in if option_paging st0 \<and> c \<noteq> ERR then handle_key c st0 else st0)"

section \<open>Drawing and reading\<close>

text \<open>
  Modelled from the spec: \<open>isprint\<close> of libc, used when \<open>FORCE_8BIT\<close> is not defined,
  is not part of the repository. The spec has printable ASCII, 0x20 to 0x7E.
\<close>

definition isprint :: "chtype \<Rightarrow> bool" where
  "isprint x = (32 \<le> x \<and> x \<le> 126)"

text \<open>
  With \<open>FORCE_8BIT\<close> the macro of lines 30 to 33 replaces \<open>isprint\<close>:
  \<open>#define isprint(x) ( (x>=' '&&x<='~') || (x>=0xa0) )\<close>. Its parameter is not
  parenthesised, and line 331 passes \<open>command_output[offset] & A_CHARTEXT\<close>, so for a
  cell \<open>c\<close> the call expands to
  \<open>( (c & A_CHARTEXT>=' ' && c & A_CHARTEXT<='~') || (c & A_CHARTEXT>=0xa0) )\<close>,
  where each comparison binds tighter than \<open>&\<close> and yields 0 or 1.
\<close>

definition c_truth :: "bool \<Rightarrow> chtype" where
  "c_truth b = (if b then 1 else 0)"

definition isprint_8bit :: "chtype \<Rightarrow> bool" where
  "isprint_8bit c =
     ((c AND c_truth (A_CHARTEXT \<ge> 32) \<noteq> 0 \<and> c AND c_truth (A_CHARTEXT \<le> 126) \<noteq> 0)
      \<or> c AND c_truth (A_CHARTEXT \<ge> 160) \<noteq> 0)"

text \<open>\<open>isprint(command_output[offset] & A_CHARTEXT)\<close> of line 331, in either build.\<close>

definition printable :: "bool \<Rightarrow> chtype \<Rightarrow> bool" where
  "printable eight_bit c = (if eight_bit then isprint_8bit c else isprint (c AND A_CHARTEXT))"

text \<open>The condition of lines 331 to 334.\<close>

definition drawn :: "watch_state \<Rightarrow> int \<Rightarrow> int \<Rightarrow> chtype \<Rightarrow> bool" where
  "drawn st x y c =
     (printable (force_8bit st) c
      \<and> y - origin_y st \<ge> show_title st \<and> y - origin_y st < height st
      \<and> x - origin_x st < width st \<and> x - origin_x st \<ge> 0
      \<and> \<not> go_to_end st)"

text \<open>
  The \<open>switch\<close> of lines 340 to 351, on the whole cell (attributes included):
  tab is 9, newline is 10.
\<close>

definition advance :: "chtype \<Rightarrow> int \<times> int \<Rightarrow> int \<times> int" where
  "advance c xy =
     (case xy of (x, y) \<Rightarrow>
        if c = 9 then (x + 8, y)
        else if c = 10 then (0, y + 1)
        else (x + 1, y))"

text \<open>
  The inner loop of lines 329 to 356. It returns the \<open>addch\<close> calls made, the cursor,
  the offset reached and \<open>done\<close>.
\<close>

function draw_cells ::
  "watch_state \<Rightarrow> (int \<times> int \<times> chtype) list \<Rightarrow> int \<Rightarrow> int \<Rightarrow> nat
   \<Rightarrow> (int \<times> int \<times> chtype) list \<times> int \<times> int \<times> nat \<times> bool" where
  "draw_cells st scr x y offset =
     (if offset < length (command_output st) then
        (let c = command_output st ! offset;
             scr' = (if drawn st x y c then scr @ [(y - origin_y st, x - origin_x st, c)] else scr);
             x' = fst (advance c (x, y));
             y' = snd (advance c (x, y));
             done = (\<not> go_to_end st \<and> y' > origin_y st + height st)
         in if done then (scr', x', y', Suc offset, True)
            else draw_cells st scr' x' y' (Suc offset))
      else (scr, x, y, offset, False))"
  by pat_completeness auto
termination
  by (relation "measure (\<lambda>(st, scr, x, y, offset). length (command_output st) - offset)") auto

declare draw_cells.simps [simp del]

text \<open>
  \<open>fread(buffer, 1, 128, command_pipe)\<close> on a pipe: it returns 128 bytes, or fewer when
  the command's output ends, which sets the end-of-file indicator. Read errors are not
  modelled.
\<close>

definition fread_128 :: "pipe \<Rightarrow> byte list \<times> pipe" where
  "fread_128 p =
     (take 128 (pending p), \<lparr>pending = drop 128 (pending p), at_eof = (length (pending p) < 128)\<rparr>)"

text \<open>
  Lines 373 to 399: one read, the growth of the buffer (\<open>ok n\<close> tells whether
  \<open>realloc\<close> to \<open>n\<close> cells succeeds), the copy of the bytes and the comparison.
  On failure the code calls \<open>exit(1)\<close> itself.
\<close>

definition read_more :: "(nat \<Rightarrow> bool) \<Rightarrow> pipe \<Rightarrow> watch_state \<Rightarrow> outcome + watch_state" where
  "read_more ok p st =
     (case fread_128 p of (buffer, p') \<Rightarrow>
        if \<not> ok (length (command_output st) + length buffer) then Inl (c_exit st 1)
        else Inr (st\<lparr>command_pipe := Some p',
                     command_output :=
                       append_output (char_signed st) (option_differences st)
                         (option_differences_cumulative st) (previous_command_output st)
                         (command_output st) buffer\<rparr>))"

text \<open>What is left of a stream to read: the measure of the loop below.\<close>

definition unread :: "watch_state \<Rightarrow> nat" where
  "unread st =
     (case command_pipe st of
        None \<Rightarrow> 0
      | Some p \<Rightarrow> if at_eof p then 0 else Suc (length (pending p)))"

text \<open>
  The loop of lines 323 to 401, entered at \<open>restart_draw\<close> with \<open>x = 0\<close>,
  \<open>y = show_title\<close>, \<open>offset = 0\<close>.
\<close>

function render :: "(nat \<Rightarrow> bool) \<Rightarrow> watch_state \<Rightarrow> int \<Rightarrow> int \<Rightarrow> nat \<Rightarrow> outcome + watch_state" where
  "render ok st x y offset =
     (case draw_cells st (screen st) x y offset of
        (scr, x1, y1, offset1, done) \<Rightarrow>
          if done then Inr (st\<lparr>screen := scr\<rparr>)
          else
            (case command_pipe st of
               None \<Rightarrow> Inl Fault
             | Some p \<Rightarrow>
                 if at_eof p then
                   (if go_to_end st
                    then render ok (st\<lparr>screen := scr, max_y := y1, origin_y := y1 - height st,
                                       go_to_end := False\<rparr>) 0 (show_title st) 0
                    else Inr (st\<lparr>screen := scr, max_y := y1\<rparr>))
                 else
                   (case read_more ok p (st\<lparr>screen := scr\<rparr>) of
                      Inl e \<Rightarrow> Inl e
                    | Inr st' \<Rightarrow> render ok st' x1 y1 offset1)))"
  by pat_completeness auto
termination
  by (relation "measures [\<lambda>(ok, st, x, y, offset). if go_to_end st then 1 else 0,
                         \<lambda>(ok, st, x, y, offset). unread st]")
     (auto simp: read_more_def fread_128_def unread_def split: if_splits)

declare render.simps [simp del]

section \<open>The main loop\<close>

text \<open>
  Lines 288 to 309: a new run. \<open>popen\<close> gives the stream of the command's whole output
  or fails; the unchecked \<open>malloc\<close> may return \<open>NULL\<close>, and the \<open>memcpy\<close> into it is
  undefined unless nothing is copied.
\<close>

definition rerun :: "tick_env \<Rightarrow> watch_state \<Rightarrow> outcome + watch_state" where
  "rerun env st =
     (case popen_result env of
        None \<Rightarrow> Inl (do_exit st 2)
      | Some out \<Rightarrow>
          if malloc_ok env (length (command_output st)) then
            Inr (st\<lparr>command_pipe := Some \<lparr>pending = out, at_eof = False\<rparr>, max_y := - 1,
                    previous_command_output := Some (command_output st), command_output := []\<rparr>)
          else if command_output st = [] then
            Inr (st\<lparr>command_pipe := Some \<lparr>pending = out, at_eof = False\<rparr>, max_y := - 1,
                    previous_command_output := None, command_output := []\<rparr>)
          else Inl Fault)"

text \<open>
  Lines 285 to 404 when a redraw is due: \<open>clear()\<close>, the new run if one is due, and
  the drawing loop. The title line (lines 311 to 321) only writes to the terminal and is
  not modelled.
\<close>

definition redraw :: "tick_env \<Rightarrow> watch_state \<Rightarrow> outcome + watch_state" where
  "redraw env st =
     (let st0 = st\<lparr>screen := []\<rparr>
      in case (if rerun_command st0 then rerun env st0 else Inr st0) of
           Inl e \<Rightarrow> Inl e
         | Inr st1 \<Rightarrow> render (realloc_ok env) st1 0 (show_title st1) 0)"

text \<open>
  Lines 455 to 461. \<open>time_now - time_then\<close> is unsigned 64-bit arithmetic; \<open>passed\<close>
  is the comparison in \<open>double\<close> arithmetic, \<open>interval_passed\<close> of the environment.
\<close>

definition timer_update :: "(64 word \<Rightarrow> double \<Rightarrow> bool) \<Rightarrow> 64 word \<Rightarrow> watch_state \<Rightarrow> watch_state" where
  "timer_update passed time_now st =
     (if passed (time_now - time_then st) (interval st)
      then st\<lparr>time_then := time_now, rerun_command := True\<rparr>
      else st\<lparr>rerun_command := False\<rparr>)"

text \<open>One iteration of \<open>for (;;)\<close>, lines 261 to 462.\<close>

definition tick :: "tick_env \<Rightarrow> watch_state \<Rightarrow> outcome + watch_state" where
  "tick env st =
     (let st1 = (if screen_size_changed st
                 then (get_terminal_size (winsize env) st)\<lparr>screen_size_changed := False, view_changed := True\<rparr>
                 else st);
          st2 = clamp_viewport st1
      in case (if rerun_command st2 \<or> view_changed st2 then redraw env st2 else Inr st2) of
           Inl e \<Rightarrow> Inl e
         | Inr st3 \<Rightarrow>
             (let st4 = paging_input (getch_result env) st3
              in case gettimeofday_result env of
                   None \<Rightarrow> Inl (c_exit st4 1)
                 | Some time_now \<Rightarrow> Inr (timer_update (interval_passed env) time_now st4)))"

text \<open>Iterations in a row, one environment each, until the program exits.\<close>

fun ticks :: "tick_env list \<Rightarrow> watch_state \<Rightarrow> outcome + watch_state" where
  "ticks [] st = Inr st"
| "ticks (env # envs) st = (case tick env st of Inl e \<Rightarrow> Inl e | Inr st' \<Rightarrow> ticks envs st')"

text \<open>The signal handlers: \<open>winch_handler\<close> (lines 81 to 86) and \<open>die\<close> (lines 75 to 79).\<close>

definition winch_handler :: "watch_state \<Rightarrow> watch_state" where
  "winch_handler st = st\<lparr>screen_size_changed := True\<rparr>"

definition die :: "watch_state \<Rightarrow> outcome" where
  "die st = do_exit st 0"

text \<open>
  The state in which the loop is entered (lines 145 to 156 and 241 to 259) for a terminal
  of 24 rows and 80 columns whose size comes from the \<open>ioctl\<close>, with the title shown, on
  a platform with signed \<open>char\<close> and the libc \<open>isprint\<close>. The arguments are the options
  \<open>-d\<close>, \<open>-d=cumulative\<close>, \<open>-p\<close> and the clock at entry.
\<close>

definition loop_entry :: "bool \<Rightarrow> bool \<Rightarrow> bool \<Rightarrow> 64 word \<Rightarrow> watch_state" where
  "loop_entry differences cumulative paging now =
     \<lparr>curses_started = True, height = 24, width = 80, screen_size_changed = False,
      show_title = 2, incoming_cols = - 1, incoming_rows = - 1,
      option_differences = differences, option_differences_cumulative = cumulative,
      option_paging = paging, interval = Finite 2, char_signed = True, force_8bit = False,
      command_pipe = None, command_output = [], previous_command_output = None,
      time_then = now, rerun_command = True, max_y = - 1, origin_x = 0, origin_y = 0,
      view_changed = False, go_to_end = False, terminal = Curses, screen = []\<rparr>"

text \<open>
  An environment in which nothing fails: the command writes \<open>out\<close>, the key read is
  \<open>key\<close>, the clock shows \<open>now\<close>, and the interval has not passed.
\<close>

definition calm_env :: "byte list \<Rightarrow> int \<Rightarrow> 64 word \<Rightarrow> tick_env" where
  "calm_env out key now =
     \<lparr>winsize = Some (24, 80), popen_result = Some out, malloc_ok = (\<lambda>n. True),
      realloc_ok = (\<lambda>n. True), getch_result = key, gettimeofday_result = Some now,
      interval_passed = (\<lambda>d i. False)\<rparr>"

section \<open>Properties of the annotation loop\<close>

lemma length_annotate_loop:
  "length (annotate_loop cumulative prev out i) = length out"
  by (induction cumulative prev out i rule: annotate_loop.induct)
     (subst annotate_loop.simps, simp)

lemma nth_annotate_loop:
  "j < length out \<Longrightarrow>
   annotate_loop cumulative prev out s ! j =
     (if s \<le> j \<and> j < length prev then annotate_cell cumulative (prev ! j) (out ! j) else out ! j)"
proof (induction cumulative prev out s rule: annotate_loop.induct)
  case (1 cumulative prev out i)
  show ?case
  proof (cases "i < length out \<and> i < length prev")
    case True
    let ?out' = "out[i := annotate_cell cumulative (prev ! i) (out ! i)]"
    have step: "annotate_loop cumulative prev out i = annotate_loop cumulative prev ?out' (Suc i)"
      using True by (subst annotate_loop.simps) simp
    have "j < length ?out'" using "1.prems" by simp
    from "1.IH" [OF True this] True "1.prems" show ?thesis
      unfolding step by (cases "j = i") (auto simp: nth_list_update)
  next
    case False
    have stop: "annotate_loop cumulative prev out i = out"
      using False by (subst annotate_loop.simps) auto
    from False "1.prems" show ?thesis unfolding stop by auto
  qed
qed

lemma masks_disjoint:
  "A_STANDOUT AND A_CHARTEXT = 0" "A_ATTRIBUTES AND A_CHARTEXT = 0"
  "A_STANDOUT AND A_ATTRIBUTES = A_STANDOUT" "A_STANDOUT \<noteq> 0"
  by (simp_all add: A_CHARTEXT_def A_STANDOUT_def A_ATTRIBUTES_def)

lemma or_and_absorb: "c OR ((c OR a) AND m) = c OR (a AND m)" for c a m :: chtype
  by (rule bit_eqI) (auto simp: bit_or_iff bit_and_iff)

lemma annotate_cell_or:
  "annotate_cell cumulative p c =
     c OR ((if c AND A_CHARTEXT \<noteq> p AND A_CHARTEXT then A_STANDOUT else 0)
           OR (if cumulative then p AND A_ATTRIBUTES else 0))"
  by (simp add: annotate_cell_def Let_def word_bw_assocs)

lemma annotate_cell_chartext:
  "annotate_cell cumulative p c AND A_CHARTEXT = c AND A_CHARTEXT"
  by (simp add: annotate_cell_or masks_disjoint bit.conj_disj_distrib2 word_bw_assocs)

lemma annotate_cell_adds_attributes:
  "annotate_cell cumulative p c = c OR (annotate_cell cumulative p c AND A_ATTRIBUTES)"
proof -
  define a where "a = (if c AND A_CHARTEXT \<noteq> p AND A_CHARTEXT then A_STANDOUT else 0)
           OR (if cumulative then p AND A_ATTRIBUTES else 0)"
  have a: "a AND A_ATTRIBUTES = a"
    by (simp add: a_def masks_disjoint bit.conj_disj_distrib2 word_bw_assocs)
  have "annotate_cell cumulative p c = c OR a"
    unfolding a_def by (rule annotate_cell_or)
  then show ?thesis
    by (simp add: or_and_absorb a)
qed

section \<open>Properties of appending\<close>

lemma length_append_output:
  "length (append_output sg diff cumul previous out buffer) = length out + length buffer"
  by (simp add: append_output_def Let_def length_annotate_loop split: option.splits)

lemma nth_append_output:
  assumes "j < length out + length buffer"
  shows "append_output sg diff cumul previous out buffer ! j =
     (if j < length out then out ! j
      else case previous of
             None \<Rightarrow> chtype_of_char sg (buffer ! (j - length out))
           | Some prev \<Rightarrow>
               if diff \<and> j < length prev
               then annotate_cell cumul (prev ! j) (chtype_of_char sg (buffer ! (j - length out)))
               else chtype_of_char sg (buffer ! (j - length out)))"
  using assms
  by (auto simp: append_output_def Let_def nth_annotate_loop nth_append split: option.splits)

lemma append_output_Nil: "append_output sg diff cumul previous out [] = out"
  by (rule nth_equalityI) (simp_all add: length_append_output nth_append_output)

lemma append_output_append:
  "append_output sg diff cumul previous (append_output sg diff cumul previous out b1) b2 =
   append_output sg diff cumul previous out (b1 @ b2)"
proof (rule nth_equalityI)
  show "length (append_output sg diff cumul previous (append_output sg diff cumul previous out b1) b2) =
        length (append_output sg diff cumul previous out (b1 @ b2))"
    by (simp add: length_append_output)
next
  fix j
  assume "j < length (append_output sg diff cumul previous (append_output sg diff cumul previous out b1) b2)"
  then have j: "j < length out + length b1 + length b2"
    by (simp add: length_append_output)
  then show "append_output sg diff cumul previous (append_output sg diff cumul previous out b1) b2 ! j =
        append_output sg diff cumul previous out (b1 @ b2) ! j"
    by (cases previous) (auto simp: nth_append_output length_append_output nth_append)
qed

lemma foldl_append_output:
  "foldl (append_output sg diff cumul previous) out reads =
   append_output sg diff cumul previous out (concat reads)"
  by (induction reads arbitrary: out) (simp_all add: append_output_Nil append_output_append)

lemma bytewise_is_chunked:
  "foldl (\<lambda>out b. append_output sg diff cumul previous out [b]) out bytes =
   foldl (append_output sg diff cumul previous) out (map (\<lambda>b. [b]) bytes)"
  by (induction bytes arbitrary: out) simp_all

section \<open>Cells made from bytes\<close>

lemma masks_as_bits:
  "A_CHARTEXT = mask 8" "A_ATTRIBUTES = NOT (mask 8)" "A_STANDOUT = 2 ^ 16"
  by (simp_all add: A_CHARTEXT_def A_ATTRIBUTES_def A_STANDOUT_def mask_eq_exp_minus_1)

lemma small_byte_top_bit: "b < 0x80 \<Longrightarrow> \<not> bit b 7" for b :: byte
proof -
  assume "b < 0x80"
  then have "b div 2 ^ 7 = 0" by (simp add: div_word_less)
  then show ?thesis by (simp add: bit_iff_odd)
qed

lemma fresh_cell_plain:
  "(sg \<longrightarrow> b < 0x80) \<Longrightarrow> chtype_of_char sg b AND A_ATTRIBUTES = 0"
  unfolding chtype_of_char_def masks_as_bits
  by (rule bit_word_eqI) (auto simp: bit_simps min_def dest: small_byte_top_bit bit_imp_le_length split: if_splits)

lemma fresh_cell_chartext:
  "chtype_of_char sg b AND A_CHARTEXT = ucast b"
  unfolding chtype_of_char_def masks_as_bits
proof (rule bit_word_eqI)
  fix n assume "n < LENGTH(32)"
  consider "n < 7" | "n = 7" | "8 \<le> n" by linarith
  then show "bit ((if sg then scast b else ucast b) AND mask 8 :: chtype) n = bit (ucast b :: chtype) n"
    by cases (auto simp: bit_simps min_def dest: bit_imp_le_length)
qed

lemma standout_in_attributes: "c AND A_ATTRIBUTES = 0 \<Longrightarrow> c AND A_STANDOUT = 0" for c :: chtype
proof -
  assume zero: "c AND A_ATTRIBUTES = 0"
  have "c AND A_STANDOUT = c AND (A_ATTRIBUTES AND A_STANDOUT)"
    using masks_disjoint(3) by (simp add: and.commute)
  also have "\<dots> = (c AND A_ATTRIBUTES) AND A_STANDOUT"
    by (simp only: and.assoc)
  finally show ?thesis
    using zero by simp
qed

lemma annotate_cell_standout:
  "c AND A_STANDOUT = 0 \<Longrightarrow>
   annotate_cell cumulative p c AND A_STANDOUT \<noteq> 0 \<longleftrightarrow>
     (c AND A_CHARTEXT \<noteq> p AND A_CHARTEXT \<or> cumulative \<and> p AND A_STANDOUT \<noteq> 0)"
  using masks_disjoint
  by (auto simp: annotate_cell_or bit.conj_disj_distrib2 word_bw_assocs and.commute [of A_ATTRIBUTES])

section \<open>Runs in cumulative mode\<close>

lemma run_output_eq:
  "run_output sg diff cumul prev reads = append_output sg diff cumul (Some prev) [] (concat reads)"
  by (simp add: run_output_def foldl_append_output)

lemma length_run_output: "length (run_output sg diff cumul prev reads) = length (concat reads)"
  by (simp only: run_output_eq length_append_output list.size)

lemma or_and_same: "(c OR (h OR a)) AND a = a" for c h a :: chtype
  by (rule bit_eqI) (auto simp: bit_or_iff bit_and_iff)

lemma carried_trans: "f AND y = y \<Longrightarrow> y AND z = z \<Longrightarrow> f AND z = z" for f y z :: chtype
  by (metis and.assoc)

lemma annotate_cell_carries:
  "annotate_cell True p c AND (p AND A_ATTRIBUTES) = p AND A_ATTRIBUTES"
  by (simp add: annotate_cell_or or_and_same)

lemma run_output_carries:
  assumes "i < length prev" and "i < length (concat reads)"
  shows "run_output sg True True prev reads ! i AND (prev ! i AND A_ATTRIBUTES) = prev ! i AND A_ATTRIBUTES"
  using assms by (simp add: run_output_eq nth_append_output annotate_cell_carries)

lemma runs_carry:
  "i < length prev \<Longrightarrow> \<forall>reads \<in> set runs. i < length (concat reads) \<Longrightarrow>
   foldl (run_output sg True True) prev runs ! i AND (prev ! i AND A_ATTRIBUTES) = prev ! i AND A_ATTRIBUTES"
proof (induction runs arbitrary: prev)
  case Nil
  then show ?case by (simp add: and.assoc [symmetric])
next
  case (Cons reads runs)
  let ?next = "run_output sg True True prev reads"
  have len: "i < length ?next"
    using Cons.prems(2) by (simp add: length_run_output)
  have later: "foldl (run_output sg True True) ?next runs ! i AND (?next ! i AND A_ATTRIBUTES) =
               ?next ! i AND A_ATTRIBUTES"
    using Cons.IH [OF len] Cons.prems(2) by simp
  have one: "?next ! i AND (prev ! i AND A_ATTRIBUTES) = prev ! i AND A_ATTRIBUTES"
    using Cons.prems by (simp add: run_output_carries)
  have "(?next ! i AND A_ATTRIBUTES) AND (prev ! i AND A_ATTRIBUTES) = prev ! i AND A_ATTRIBUTES"
    using one by (metis and.assoc and.commute and.idem)
  with later show ?case
    by (simp add: carried_trans)
qed

section \<open>Chunked reading\<close>

text \<open>
  Claim C7. For every byte sequence the command writes, building the output buffer one
  byte at a time, each byte appended and compared on its own, gives the same cells as
  appending and comparing all the bytes in one call: it does not matter how the reads cut
  the output. This holds for every setting of the difference options, for every previous
  output and on both kinds of platform.
\<close>

theorem chunking_transparent:
  "foldl (\<lambda>out b. append_output sg diff cumul previous out [b]) [] bytes =
   append_output sg diff cumul previous [] bytes"
  by (simp add: bytewise_is_chunked foldl_append_output)

theorem chunking_transparent_witness:
  "foldl (\<lambda>out b. append_output True True False (Some [0x61, 0x62]) out [b]) [] [0x61, 0x63, 0x64] =
   [0x61, 0x10063, 0x64]"
  using chunking_transparent [of True True False "Some [0x61, 0x62]" "[0x61, 0x63, 0x64]"]
  by (simp add: append_output_def chtype_of_char_def annotate_loop.simps annotate_cell_def
      A_CHARTEXT_def A_STANDOUT_def)

section \<open>What annotation leaves alone\<close>

text \<open>
  Claim C10. The comparison loop, started at the first offset of the new span, keeps the
  length of the buffer and the character (\<open>A_CHARTEXT\<close>) part of every cell, in
  cumulative mode and without it; every cell afterwards is the cell before with attribute
  bits ORed in at most, and the cells before the new span are unchanged.
\<close>

theorem annotation_frame:
  "length (annotate_loop cumulative prev out start) = length out \<and>
   (\<forall>i < length out.
      annotate_loop cumulative prev out start ! i AND A_CHARTEXT = out ! i AND A_CHARTEXT \<and>
      annotate_loop cumulative prev out start ! i =
        out ! i OR (annotate_loop cumulative prev out start ! i AND A_ATTRIBUTES) \<and>
      (i < start \<longrightarrow> annotate_loop cumulative prev out start ! i = out ! i))"
proof (intro conjI allI impI)
  show "length (annotate_loop cumulative prev out start) = length out"
    by (rule length_annotate_loop)
next
  fix i assume "i < length out"
  then show "annotate_loop cumulative prev out start ! i AND A_CHARTEXT = out ! i AND A_CHARTEXT"
    by (simp add: nth_annotate_loop annotate_cell_chartext)
next
  fix i assume i: "i < length out"
  show "annotate_loop cumulative prev out start ! i =
        out ! i OR (annotate_loop cumulative prev out start ! i AND A_ATTRIBUTES)"
  proof (cases "start \<le> i \<and> i < length prev")
    case True
    with i show ?thesis
      using annotate_cell_adds_attributes [of cumulative "prev ! i" "out ! i"]
      by (simp add: nth_annotate_loop)
  next
    case False
    with i have "annotate_loop cumulative prev out start ! i = out ! i"
      by (auto simp: nth_annotate_loop)
    then show ?thesis
      by (simp add: word_ao_absorbs)
  qed
next
  fix i assume "i < length out" "i < start"
  then show "annotate_loop cumulative prev out start ! i = out ! i"
    by (simp add: nth_annotate_loop)
qed

theorem annotation_frame_witness:
  "length (annotate_loop True [0x20062, 0x63] [0x61, 0x61] 1) = 2 \<and>
   annotate_loop True [0x20062, 0x63] [0x61, 0x61] 1 ! 0 = 0x61 \<and>
   annotate_loop True [0x20062, 0x63] [0x61, 0x61] 1 ! 1 AND A_CHARTEXT = 0x61"
  using annotation_frame [of True "[0x20062, 0x63]" "[0x61, 0x61]" 1]
  by (simp add: annotate_loop.simps annotate_cell_def A_CHARTEXT_def A_STANDOUT_def A_ATTRIBUTES_def)

section \<open>Highlighting of differences\<close>

lemma span_highlight:
  assumes "length out \<le> i" and "i < length out + length buffer"
    and "sg \<longrightarrow> buffer ! (i - length out) < 0x80"
  shows "(i < length prev \<longrightarrow>
            (append_output sg True cumulative (Some prev) out buffer ! i AND A_STANDOUT \<noteq> 0 \<longleftrightarrow>
               (chtype_of_char sg (buffer ! (i - length out)) AND A_CHARTEXT \<noteq> prev ! i AND A_CHARTEXT
                \<or> cumulative \<and> prev ! i AND A_STANDOUT \<noteq> 0))) \<and>
         (length prev \<le> i \<longrightarrow>
            append_output sg True cumulative (Some prev) out buffer ! i =
              chtype_of_char sg (buffer ! (i - length out)))"
proof -
  let ?c = "chtype_of_char sg (buffer ! (i - length out))"
  have "?c AND A_STANDOUT = 0"
    using assms(3) by (intro standout_in_attributes fresh_cell_plain)
  then show ?thesis
    using assms(1,2) by (simp add: nth_append_output annotate_cell_standout)
qed

lemma ucast_byte_inj: "(ucast (a :: byte) :: chtype) = ucast b \<longleftrightarrow> a = b"
proof
  assume eq: "(ucast a :: chtype) = ucast b"
  show "a = b"
  proof (rule bit_word_eqI)
    fix n assume "n < LENGTH(8)"
    moreover from eq have "bit (ucast a :: chtype) n = bit (ucast b :: chtype) n"
      by simp
    ultimately show "bit a n = bit b n"
      by (simp add: bit_ucast_iff)
  qed
qed simp

lemma run_output_chartext:
  "j < length (concat reads) \<Longrightarrow>
   run_output sg diff cumul prev reads ! j AND A_CHARTEXT = ucast (concat reads ! j)"
  by (simp add: run_output_eq nth_append_output annotate_cell_chartext fresh_cell_chartext)

lemma two_runs_highlight:
  assumes "j < length (concat reads1)" and "j < length (concat reads2)"
    and "sg \<longrightarrow> concat reads2 ! j < 0x80"
  shows "run_output sg True False (run_output sg diff cumul prev reads1) reads2 ! j AND A_STANDOUT \<noteq> 0
         \<longleftrightarrow> concat reads1 ! j \<noteq> concat reads2 ! j"
proof -
  let ?prev = "run_output sg diff cumul prev reads1"
  have "run_output sg True False ?prev reads2 ! j = append_output sg True False (Some ?prev) [] (concat reads2) ! j"
    by (simp only: run_output_eq)
  moreover have "j < length ?prev"
    using assms(1) by (simp add: length_run_output)
  ultimately show ?thesis
    using span_highlight [of "[]" j "concat reads2" sg ?prev False] assms
    by (auto simp: run_output_chartext fresh_cell_chartext ucast_byte_inj)
qed

text \<open>
  Claim C3, as stated, fails in cumulative mode. Three runs write \<open>b\<close>, \<open>a\<close>, \<open>a\<close>
  with \<open>--differences=cumulative\<close>: the second run flags offset 0, and in the third run
  the cell at offset 0 is highlighted although its character equals the character of the
  previous cell.
\<close>

theorem highlight_in_cumulative_mode:
  "run_output False True True (run_output False True True (run_output False True True [] [[0x62]]) [[0x61]]) [[0x61]] ! 0
     AND A_STANDOUT \<noteq> 0 \<and>
   chtype_of_char False 0x61 AND A_CHARTEXT =
     run_output False True True (run_output False True True [] [[0x62]]) [[0x61]] ! 0 AND A_CHARTEXT"
  by (simp add: run_output_def append_output_def chtype_of_char_def annotate_loop.simps annotate_cell_def
      A_CHARTEXT_def A_STANDOUT_def A_ATTRIBUTES_def)

text \<open>
  Claim C3, amended. With \<open>option_differences\<close> set, take an offset of the newly
  appended span. If the offset is valid in the previous buffer and its byte is below 0x80
  where plain \<open>char\<close> is signed (so the new cell starts with no attribute bit), the cell
  is highlighted after the comparison if and only if the characters of the two cells
  differ or, in cumulative mode, the previous cell is highlighted. If the offset is at
  or beyond the length of the previous buffer, the cell is left as appended. Hence, for
  two runs of such bytes whose characters differ at offset \<open>k\<close> only, the second run
  read without cumulative mode has, among the offsets of both buffers, exactly offset
  \<open>k\<close> highlighted.
\<close>

theorem highlight_iff_changed:
  assumes "length out \<le> i" and "i < length out + length buffer"
  shows "(i < length prev \<and> (sg \<longrightarrow> buffer ! (i - length out) < 0x80) \<longrightarrow>
            (append_output sg True cumulative (Some prev) out buffer ! i AND A_STANDOUT \<noteq> 0 \<longleftrightarrow>
               (chtype_of_char sg (buffer ! (i - length out)) AND A_CHARTEXT \<noteq> prev ! i AND A_CHARTEXT
                \<or> cumulative \<and> prev ! i AND A_STANDOUT \<noteq> 0))) \<and>
         (length prev \<le> i \<longrightarrow>
            append_output sg True cumulative (Some prev) out buffer ! i =
              chtype_of_char sg (buffer ! (i - length out))) \<and>
         ((\<forall>j. j < length (concat reads1) \<and> j < length (concat reads2) \<longrightarrow>
                (sg \<longrightarrow> concat reads2 ! j < 0x80) \<and>
                (concat reads1 ! j \<noteq> concat reads2 ! j \<longleftrightarrow> j = k)) \<longrightarrow>
          (\<forall>j. j < length (concat reads1) \<and> j < length (concat reads2) \<longrightarrow>
                (run_output sg True False (run_output sg diff cumul prev0 reads1) reads2 ! j
                   AND A_STANDOUT \<noteq> 0 \<longleftrightarrow> j = k)))"
proof (intro conjI impI allI)
  assume "i < length prev \<and> (sg \<longrightarrow> buffer ! (i - length out) < 0x80)"
  with assms span_highlight [of out i buffer sg prev cumulative]
  show "append_output sg True cumulative (Some prev) out buffer ! i AND A_STANDOUT \<noteq> 0 \<longleftrightarrow>
        (chtype_of_char sg (buffer ! (i - length out)) AND A_CHARTEXT \<noteq> prev ! i AND A_CHARTEXT
         \<or> cumulative \<and> prev ! i AND A_STANDOUT \<noteq> 0)"
    by simp
next
  assume "length prev \<le> i"
  with assms show "append_output sg True cumulative (Some prev) out buffer ! i =
        chtype_of_char sg (buffer ! (i - length out))"
    by (simp add: nth_append_output)
next
  fix j
  assume only_k: "\<forall>j. j < length (concat reads1) \<and> j < length (concat reads2) \<longrightarrow>
                (sg \<longrightarrow> concat reads2 ! j < 0x80) \<and>
                (concat reads1 ! j \<noteq> concat reads2 ! j \<longleftrightarrow> j = k)"
    and j: "j < length (concat reads1) \<and> j < length (concat reads2)"
  then have "sg \<longrightarrow> concat reads2 ! j < 0x80"
    and "concat reads1 ! j \<noteq> concat reads2 ! j \<longleftrightarrow> j = k"
    by blast+
  with j two_runs_highlight [of j reads1 reads2 sg diff cumul prev0]
  show "run_output sg True False (run_output sg diff cumul prev0 reads1) reads2 ! j
          AND A_STANDOUT \<noteq> 0 \<longleftrightarrow> j = k"
    by simp
qed

theorem highlight_iff_changed_witness:
  "length [0x61 :: chtype] \<le> 2 \<and> 2 < length [0x61 :: chtype] + length [0x62, 0x63 :: byte] \<and>
   [0x62, 0x63 :: byte] ! (2 - length [0x61 :: chtype]) < 0x80 \<and>
   2 < length [0x61, 0x62, 0x64 :: chtype] \<and>
   append_output True True False (Some [0x61, 0x62, 0x64]) [0x61] [0x62, 0x63] ! 2 AND A_STANDOUT \<noteq> 0 \<and>
   run_output True True False (run_output True True False [] [[0x61, 0x62]]) [[0x61], [0x63]] ! 0
     AND A_STANDOUT = 0 \<and>
   run_output True True False (run_output True True False [] [[0x61, 0x62]]) [[0x61], [0x63]] ! 1
     AND A_STANDOUT \<noteq> 0"
  using highlight_iff_changed [of "[0x61]" 2 "[0x62, 0x63]" "[0x61, 0x62, 0x64]" True False
      "[[0x61, 0x62]]" "[[0x61], [0x63]]" 1 True False "[]"]
  by (simp add: run_output_def append_output_def chtype_of_char_def annotate_loop.simps annotate_cell_def
      A_CHARTEXT_def A_STANDOUT_def A_ATTRIBUTES_def)

section \<open>Cumulative mode\<close>

text \<open>
  Claim C4. In cumulative mode the comparison gives a cell of the new span, at an offset
  valid in the previous buffer, what it gets without cumulative mode ORed with all
  attribute bits of the previous cell at that offset. So over any number of later runs
  whose buffers reach offset \<open>i\<close>, the cell at \<open>i\<close> still has every attribute bit the
  cell at \<open>i\<close> had, whether its character changes or not.
\<close>

theorem cumulative_carries_attributes:
  "(length out \<le> i \<and> i < length out + length buffer \<and> i < length prev \<longrightarrow>
      append_output sg True True (Some prev) out buffer ! i =
        append_output sg True False (Some prev) out buffer ! i OR (prev ! i AND A_ATTRIBUTES)) \<and>
   (i < length prev \<and> (\<forall>reads \<in> set runs. i < length (concat reads)) \<longrightarrow>
      foldl (run_output sg True True) prev runs ! i AND (prev ! i AND A_ATTRIBUTES) =
        prev ! i AND A_ATTRIBUTES)"
proof (intro conjI impI)
  assume "length out \<le> i \<and> i < length out + length buffer \<and> i < length prev"
  then show "append_output sg True True (Some prev) out buffer ! i =
        append_output sg True False (Some prev) out buffer ! i OR (prev ! i AND A_ATTRIBUTES)"
    by (simp add: nth_append_output annotate_cell_def Let_def)
next
  assume "i < length prev \<and> (\<forall>reads \<in> set runs. i < length (concat reads))"
  then show "foldl (run_output sg True True) prev runs ! i AND (prev ! i AND A_ATTRIBUTES) =
        prev ! i AND A_ATTRIBUTES"
    by (simp add: runs_carry)
qed

theorem cumulative_carries_attributes_witness:
  "append_output False True True (Some [0x50061]) [] [0x61] ! 0 = 0x50061 \<and>
   foldl (run_output False True True) [0x50061] [[[0x61]], [[0x61, 0x62]], [[0x61]]] ! 0 = 0x50061"
  using cumulative_carries_attributes [of "[]" 0 "[0x61]" "[0x50061]" False "[[[0x61]], [[0x61, 0x62]], [[0x61]]]"]
  by (simp add: run_output_def append_output_def chtype_of_char_def annotate_loop.simps annotate_cell_def
      A_CHARTEXT_def A_STANDOUT_def A_ATTRIBUTES_def)

section \<open>Evaluating the main loop\<close>

text \<open>The definitions a concrete run of the loop unfolds.\<close>

lemmas tick_defs = tick_def redraw_def rerun_def read_more_def fread_128_def
  clamp_viewport_def paging_input_def handle_key_def timer_update_def get_terminal_size_def
  c_exit_def do_exit_def drawn_def advance_def printable_def isprint_def isprint_8bit_def
  c_truth_def append_output_def chtype_of_char_def
  annotate_cell_def A_CHARTEXT_def A_STANDOUT_def A_ATTRIBUTES_def
  KEY_UP_def KEY_DOWN_def KEY_LEFT_def KEY_RIGHT_def KEY_NPAGE_def KEY_PPAGE_def ERR_def

section \<open>Paging keys\<close>

text \<open>
  Claim C9. With paging enabled, each key moves the origin by its fixed step: up and down
  move \<open>origin_y\<close> by 8, left and right move \<open>origin_x\<close> by 8, page-down and page-up
  move \<open>origin_y\<close> by the height less the title rows; the moves towards the origin
  (up, left, page-up) stop at 0, the others have no bound; \<open>g\<close> sets both coordinates
  to 0. The other coordinate is left as it is.
\<close>

theorem paging_keys:
  assumes "option_paging st"
  shows "origin_y (paging_input KEY_UP st) = max 0 (origin_y st - 8) \<and>
         origin_x (paging_input KEY_UP st) = origin_x st \<and>
         origin_y (paging_input KEY_DOWN st) = origin_y st + 8 \<and>
         origin_x (paging_input KEY_DOWN st) = origin_x st \<and>
         origin_x (paging_input KEY_LEFT st) = max 0 (origin_x st - 8) \<and>
         origin_y (paging_input KEY_LEFT st) = origin_y st \<and>
         origin_x (paging_input KEY_RIGHT st) = origin_x st + 8 \<and>
         origin_y (paging_input KEY_RIGHT st) = origin_y st \<and>
         origin_y (paging_input KEY_NPAGE st) = origin_y st + (height st - show_title st) \<and>
         origin_x (paging_input KEY_NPAGE st) = origin_x st \<and>
         origin_y (paging_input KEY_PPAGE st) = max 0 (origin_y st - (height st - show_title st)) \<and>
         origin_x (paging_input KEY_PPAGE st) = origin_x st \<and>
         origin_x (paging_input (of_char (CHR ''g'')) st) = 0 \<and>
         origin_y (paging_input (of_char (CHR ''g'')) st) = 0"
  using assms
  by (simp add: paging_input_def handle_key_def KEY_UP_def KEY_DOWN_def KEY_LEFT_def KEY_RIGHT_def
      KEY_NPAGE_def KEY_PPAGE_def ERR_def max_def)

theorem paging_keys_witness:
  "option_paging ((loop_entry False False True 0)\<lparr>origin_x := 16, origin_y := 4\<rparr>) \<and>
   origin_y (paging_input KEY_UP ((loop_entry False False True 0)\<lparr>origin_x := 16, origin_y := 4\<rparr>)) = 0 \<and>
   origin_y (paging_input KEY_DOWN ((loop_entry False False True 0)\<lparr>origin_x := 16, origin_y := 4\<rparr>)) = 12 \<and>
   origin_x (paging_input KEY_LEFT ((loop_entry False False True 0)\<lparr>origin_x := 16, origin_y := 4\<rparr>)) = 8 \<and>
   origin_x (paging_input KEY_RIGHT ((loop_entry False False True 0)\<lparr>origin_x := 16, origin_y := 4\<rparr>)) = 24 \<and>
   origin_y (paging_input KEY_NPAGE ((loop_entry False False True 0)\<lparr>origin_x := 16, origin_y := 4\<rparr>)) = 26 \<and>
   origin_y (paging_input KEY_PPAGE ((loop_entry False False True 0)\<lparr>origin_x := 16, origin_y := 4\<rparr>)) = 0"
  using paging_keys [of "(loop_entry False False True 0)\<lparr>origin_x := 16, origin_y := 4\<rparr>"]
  by (simp add: loop_entry_def)

section \<open>The viewport clamp\<close>

text \<open>
  What holds: after the clamp \<open>origin_y\<close> is the smaller of its old value and
  \<open>max_y - height\<close>, so it does not exceed the bound of the claim; and the keys never
  take a non-negative \<open>origin_y\<close> below 0.
\<close>

lemma clamp_viewport_min:
  "max_y st \<noteq> - 1 \<Longrightarrow> origin_y (clamp_viewport st) = min (origin_y st) (max_y st - height st)"
  by (simp add: clamp_viewport_def min_def)

lemma clamp_viewport_ceiling:
  "max_y st \<noteq> - 1 \<Longrightarrow> origin_y (clamp_viewport st) \<le> max 0 (max_y st - height st)"
  by (simp add: clamp_viewport_min)

lemma paging_input_floor:
  "0 \<le> origin_y st \<Longrightarrow> 0 \<le> height st - show_title st \<Longrightarrow> 0 \<le> origin_y (paging_input c st)"
  by (simp add: paging_input_def handle_key_def Let_def)

text \<open>
  Claim C1 does not hold of the code: the clamp has no floor at 0. The command writes
  one line, no key is pressed, the terminal has 24 rows, and the two iterations fall
  within the first interval. The first iteration reads the
  output to its end and records \<open>max_y = 3\<close>; the clamp of the second iteration then
  sets \<open>origin_y\<close> to \<open>3 - 24\<close>, below 0, where the claim has it stay at 0.
\<close>

theorem clamp_below_zero:
  "map_sum id (\<lambda>st. (max_y st, height st, origin_y st))
     (ticks [calm_env [0x78, 0x0A] ERR 100, calm_env [0x78, 0x0A] ERR 200] (loop_entry False False False 0)) =
   Inr (3, 24, - 21)"
  by (simp add: calm_env_def loop_entry_def tick_defs render.simps draw_cells.simps unread_def)

section \<open>Fatal errors\<close>

text \<open>
  Every way one iteration of the loop can end the program: undefined behaviour, status 1
  with the terminal in the mode it was in, or status 2 after \<open>do_exit\<close>.
\<close>

lemma read_more_exit:
  "read_more ok p st = Inl e \<Longrightarrow> e = Exit 1 (terminal st)"
  by (auto simp: read_more_def c_exit_def split: prod.splits if_splits)

lemma read_more_terminal:
  "read_more ok p st = Inr st' \<Longrightarrow> terminal st' = terminal st"
  by (auto simp: read_more_def split: prod.splits if_splits)

lemma render_exit:
  "render ok st x y offset = Inl e \<Longrightarrow> e = Fault \<or> e = Exit 1 (terminal st)"
proof (induction ok st x y offset rule: render.induct)
  case (1 ok st x y offset)
  obtain scr x1 y1 offset1 fin where dc: "draw_cells st (screen st) x y offset = (scr, x1, y1, offset1, fin)"
    by (cases "draw_cells st (screen st) x y offset") auto
  note IH1 = "1.IH"(1) [of scr "(x1, y1, offset1, fin)" x1 "(y1, offset1, fin)" y1 "(offset1, fin)" offset1 fin]
  note IH2 = "1.IH"(2) [of scr "(x1, y1, offset1, fin)" x1 "(y1, offset1, fin)" y1 "(offset1, fin)" offset1 fin]
  show ?case
  proof (cases "command_pipe st")
    case None
    with "1.prems" dc show ?thesis
      by (subst (asm) render.simps) (simp split: if_splits)
  next
    case (Some p)
    show ?thesis
    proof (cases "at_eof p")
      case True
      with "1.prems" dc Some IH1 [of p] show ?thesis
        by (subst (asm) render.simps) (auto split: if_splits)
    next
      case False
      show ?thesis
      proof (cases "read_more ok p (st\<lparr>screen := scr\<rparr>)")
        case (Inl e')
        with "1.prems" dc Some False show ?thesis
          by (subst (asm) render.simps) (auto split: if_splits dest: read_more_exit)
      next
        case (Inr st')
        with "1.prems" dc Some False IH2 [of p st'] read_more_terminal [OF Inr] show ?thesis
          by (subst (asm) render.simps) (auto split: if_splits)
      qed
    qed
  qed
qed

lemma read_more_mode:
  "read_more ok p st = Inr st' \<Longrightarrow> terminal st' = terminal st \<and> option_paging st' = option_paging st"
  by (auto simp: read_more_def split: prod.splits if_splits)

lemma render_mode:
  "render ok st x y offset = Inr st' \<Longrightarrow>
   terminal st' = terminal st \<and> option_paging st' = option_paging st"
proof (induction ok st x y offset rule: render.induct)
  case (1 ok st x y offset)
  obtain scr x1 y1 offset1 fin where dc: "draw_cells st (screen st) x y offset = (scr, x1, y1, offset1, fin)"
    by (cases "draw_cells st (screen st) x y offset") auto
  note IH1 = "1.IH"(1) [of scr "(x1, y1, offset1, fin)" x1 "(y1, offset1, fin)" y1 "(offset1, fin)" offset1 fin]
  note IH2 = "1.IH"(2) [of scr "(x1, y1, offset1, fin)" x1 "(y1, offset1, fin)" y1 "(offset1, fin)" offset1 fin]
  show ?case
  proof (cases "command_pipe st")
    case None
    with "1.prems" dc show ?thesis
      by (subst (asm) render.simps) (auto split: if_splits)
  next
    case (Some p)
    show ?thesis
    proof (cases "at_eof p")
      case True
      with "1.prems" dc Some IH1 [of p] show ?thesis
        by (subst (asm) render.simps) (auto split: if_splits)
    next
      case False
      show ?thesis
      proof (cases "read_more ok p (st\<lparr>screen := scr\<rparr>)")
        case (Inl e')
        with "1.prems" dc Some False show ?thesis
          by (subst (asm) render.simps) (auto split: if_splits)
      next
        case (Inr st1)
        with "1.prems" dc Some False IH2 [of p st1] read_more_mode [OF Inr] show ?thesis
          by (subst (asm) render.simps) (auto split: if_splits)
      qed
    qed
  qed
qed

lemma paging_input_terminal: "terminal (paging_input c st) = terminal st"
  by (simp add: paging_input_def handle_key_def Let_def)

lemma redraw_exit:
  assumes "redraw env st = Inl e"
  shows "e = Fault \<or> e = Exit 1 (terminal st) \<or>
         e = Exit 2 (if curses_started st then Original else terminal st)"
proof (cases "rerun_command st")
  case False
  with assms render_exit [of "realloc_ok env" "st\<lparr>screen := []\<rparr>" 0 "show_title st" 0 e]
  show ?thesis
    by (auto simp: redraw_def)
next
  case True
  show ?thesis
  proof (cases "rerun env (st\<lparr>screen := []\<rparr>)")
    case (Inl e')
    with assms True show ?thesis
      by (auto simp: redraw_def rerun_def do_exit_def split: option.splits if_splits)
  next
    case (Inr st1)
    then have "terminal st1 = terminal st"
      by (auto simp: rerun_def split: option.splits if_splits)
    with assms True Inr render_exit [of "realloc_ok env" st1 0 "show_title st1" 0 e]
    show ?thesis
      by (auto simp: redraw_def)
  qed
qed

lemma redraw_terminal:
  assumes "redraw env st = Inr st'"
  shows "terminal st' = terminal st"
proof (cases "rerun_command st")
  case False
  with assms render_mode [of "realloc_ok env" "st\<lparr>screen := []\<rparr>" 0 "show_title st" 0 st']
  show ?thesis
    by (auto simp: redraw_def)
next
  case True
  show ?thesis
  proof (cases "rerun env (st\<lparr>screen := []\<rparr>)")
    case (Inl e')
    with assms True show ?thesis
      by (simp add: redraw_def)
  next
    case (Inr st1)
    then have "terminal st1 = terminal st"
      by (auto simp: rerun_def split: option.splits if_splits)
    with assms True Inr render_mode [of "realloc_ok env" st1 0 "show_title st1" 0 st']
    show ?thesis
      by (auto simp: redraw_def)
  qed
qed

lemma tick_exit:
  assumes "tick env st = Inl e"
  shows "e = Fault \<or> e = Exit 1 (terminal st) \<or>
         e = Exit 2 (if curses_started st then Original else terminal st)"
proof -
  define st2 where "st2 = clamp_viewport (if screen_size_changed st
     then (get_terminal_size (winsize env) st)\<lparr>screen_size_changed := False, view_changed := True\<rparr>
     else st)"
  have same: "terminal st2 = terminal st" "curses_started st2 = curses_started st"
    by (auto simp: st2_def clamp_viewport_def get_terminal_size_def Let_def split: option.splits)
  show ?thesis
  proof (cases "if rerun_command st2 \<or> view_changed st2 then redraw env st2 else Inr st2")
    case (Inl e')
    with assms have "e' = e" and "redraw env st2 = Inl e"
      by (auto simp: tick_def st2_def [symmetric] Let_def split: if_splits)
    with redraw_exit [of env st2 e] same show ?thesis
      by auto
  next
    case (Inr st3)
    then have "terminal st3 = terminal st"
      using same redraw_terminal [of env st2 st3] by (auto split: if_splits)
    with assms Inr show ?thesis
      by (auto simp: tick_def st2_def [symmetric] Let_def c_exit_def paging_input_terminal
          split: if_splits option.splits)
  qed
qed

text \<open>
  Claim C2 holds for the failure of \<open>popen\<close> only. In the first iteration of the loop,
  a failing \<open>popen\<close> ends the program with status 2 and the terminal back in its original
  mode, but a failing \<open>realloc\<close> and a failing \<open>gettimeofday\<close> end it with status 1 and
  the terminal still in curses mode: they call \<open>exit\<close>, not \<open>do_exit\<close>.
\<close>

theorem fatal_exits:
  "tick ((calm_env [0x78, 0x0A] ERR 100)\<lparr>popen_result := None\<rparr>) (loop_entry False False False 0) = Inl (Exit 2 Original) \<and>
   tick ((calm_env [0x78, 0x0A] ERR 100)\<lparr>realloc_ok := (\<lambda>n. False)\<rparr>) (loop_entry False False False 0) = Inl (Exit 1 Curses) \<and>
   tick ((calm_env [0x78, 0x0A] ERR 100)\<lparr>gettimeofday_result := None\<rparr>) (loop_entry False False False 0) = Inl (Exit 1 Curses)"
  by (simp add: calm_env_def loop_entry_def tick_defs render.simps draw_cells.simps unread_def)

section \<open>Jump to the end\<close>

text \<open>
  What the code does when \<open>go_to_end\<close> is set: \<open>G\<close> sets the flag, resets
  \<open>origin_x\<close> and leaves \<open>origin_y\<close>; the drawing loop then reads the stream to its
  end, records the last row in \<open>max_y\<close>, clears the flag and sets \<open>origin_y\<close> to
  \<open>max_y - height\<close>, whatever its sign.
\<close>

lemma paging_input_jump_end:
  "option_paging st \<Longrightarrow>
   go_to_end (paging_input (of_char (CHR ''G'')) st) \<and>
   origin_x (paging_input (of_char (CHR ''G'')) st) = 0 \<and>
   origin_y (paging_input (of_char (CHR ''G'')) st) = origin_y st \<and>
   view_changed (paging_input (of_char (CHR ''G'')) st)"
  by (simp add: paging_input_def handle_key_def KEY_UP_def KEY_DOWN_def KEY_LEFT_def KEY_RIGHT_def
      KEY_NPAGE_def KEY_PPAGE_def ERR_def)

lemma draw_cells_result:
  "draw_cells st scr x y offset = (scr', x', y', offset', fin) \<Longrightarrow>
   offset \<le> length (command_output st) \<Longrightarrow>
   (go_to_end st \<longrightarrow> \<not> fin \<and> scr' = scr) \<and>
   (\<not> fin \<longrightarrow> offset' = length (command_output st) \<and>
      (x', y') = foldl (\<lambda>xy c. advance c xy) (x, y) (drop offset (command_output st)))"
proof (induction st scr x y offset rule: draw_cells.induct)
  case (1 st scr x y offset)
  show ?case
  proof (cases "offset < length (command_output st)")
    case False
    with "1.prems" show ?thesis
      by (subst (asm) draw_cells.simps) simp
  next
    case True
    let ?c = "command_output st ! offset"
    let ?scr = "if drawn st x y ?c then scr @ [(y - origin_y st, x - origin_x st, ?c)] else scr"
    let ?x = "fst (advance ?c (x, y))"
    let ?y = "snd (advance ?c (x, y))"
    have drop: "drop offset (command_output st) = ?c # drop (Suc offset) (command_output st)"
      using True by (simp add: Cons_nth_drop_Suc)
    have nodraw: "go_to_end st \<Longrightarrow> ?scr = scr"
      by (simp add: drawn_def)
    show ?thesis
    proof (cases "\<not> go_to_end st \<and> ?y > origin_y st + height st")
      case True
      with \<open>offset < length (command_output st)\<close> "1.prems" show ?thesis
        by (subst (asm) draw_cells.simps) (simp add: Let_def)
    next
      case False
      with True "1.prems" have rec: "draw_cells st ?scr ?x ?y (Suc offset) = (scr', x', y', offset', fin)"
        by (subst (asm) draw_cells.simps) (simp add: Let_def)
      from "1.IH" [OF True refl refl refl refl refl _ rec] False True nodraw
      show ?thesis
        by (auto simp: drop)
    qed
  qed
qed

lemma take_append_output:
  "take (length out) (append_output sg diff cumul previous out buffer) = out"
  by (rule nth_equalityI) (simp_all add: length_append_output nth_append_output)

lemma read_more_grows:
  assumes "read_more ok p st = Inr st'"
  shows "take (length (command_output st)) (command_output st') = command_output st"
    and "length (command_output st) \<le> length (command_output st')"
    and "go_to_end st' = go_to_end st" and "show_title st' = show_title st"
    and "height st' = height st" and "origin_x st' = origin_x st"
  using assms
  by (auto simp: read_more_def take_append_output length_append_output split: prod.splits if_splits)

lemma render_final_pass:
  assumes "\<not> go_to_end st" and "command_pipe st = Some p" and "at_eof p"
    and "render ok st 0 (show_title st) 0 = Inr st'"
  shows "go_to_end st' = go_to_end st \<and> origin_y st' = origin_y st \<and> origin_x st' = origin_x st \<and>
         height st' = height st \<and> show_title st' = show_title st \<and>
         command_output st' = command_output st \<and>
         (max_y st' = max_y st \<or>
          max_y st' = snd (foldl (\<lambda>xy c. advance c xy) (0, show_title st) (command_output st)))"
proof -
  obtain scr x1 y1 offset1 fin where
    dc: "draw_cells st (screen st) 0 (show_title st) 0 = (scr, x1, y1, offset1, fin)"
    by (cases "draw_cells st (screen st) 0 (show_title st) 0") auto
  from draw_cells_result [OF dc] have
    "\<not> fin \<Longrightarrow> y1 = snd (foldl (\<lambda>xy c. advance c xy) (0, show_title st) (command_output st))"
    by (auto dest: arg_cong [where f = snd])
  with assms dc show ?thesis
    by (subst (asm) render.simps) (auto split: if_splits)
qed

lemma render_go_to_end_inv:
  "go_to_end st \<Longrightarrow> offset \<le> length (command_output st) \<Longrightarrow>
   (x, y) = foldl (\<lambda>xy c. advance c xy) (0, show_title st) (take offset (command_output st)) \<Longrightarrow>
   render ok st x y offset = Inr st' \<Longrightarrow>
   \<not> go_to_end st' \<and>
   max_y st' = snd (foldl (\<lambda>xy c. advance c xy) (0, show_title st') (command_output st')) \<and>
   origin_y st' = max_y st' - height st' \<and> origin_x st' = origin_x st"
proof (induction ok st x y offset rule: render.induct)
  case (1 ok st x y offset)
  let ?adv = "\<lambda>xy c. advance c xy"
  obtain scr x1 y1 offset1 fin where
    dc: "draw_cells st (screen st) x y offset = (scr, x1, y1, offset1, fin)"
    by (cases "draw_cells st (screen st) x y offset") auto
  note IH2 = "1.IH"(2) [of scr "(x1, y1, offset1, fin)" x1 "(y1, offset1, fin)" y1 "(offset1, fin)" offset1 fin]
  from draw_cells_result [OF dc "1.prems"(2)] "1.prems"(1) have
    fin: "\<not> fin" and off: "offset1 = length (command_output st)"
    and xy: "(x1, y1) = foldl ?adv (x, y) (drop offset (command_output st))"
    by auto
  have "foldl ?adv (x, y) (drop offset (command_output st)) =
        foldl ?adv (0, show_title st) (take offset (command_output st) @ drop offset (command_output st))"
    unfolding foldl_append "1.prems"(3) ..
  with xy have whole: "(x1, y1) = foldl ?adv (0, show_title st) (command_output st)"
    by simp
  then have y1: "y1 = snd (foldl ?adv (0, show_title st) (command_output st))"
    by (auto dest: arg_cong [where f = snd])
  show ?case
  proof (cases "command_pipe st")
    case None
    with "1.prems"(4) dc fin show ?thesis
      by (subst (asm) render.simps) simp
  next
    case (Some p)
    show ?thesis
    proof (cases "at_eof p")
      case True
      let ?st2 = "st\<lparr>screen := scr, max_y := y1, origin_y := y1 - height st, go_to_end := False\<rparr>"
      from "1.prems"(1,4) dc fin Some True
      have again: "render ok ?st2 0 (show_title ?st2) 0 = Inr st'"
        by (subst (asm) render.simps) simp
      from render_final_pass [OF _ _ True again] Some y1 show ?thesis
        by simp
    next
      case False
      from "1.prems"(4) dc fin Some False obtain st1 where
        rm: "read_more ok p (st\<lparr>screen := scr\<rparr>) = Inr st1"
        and rec: "render ok st1 x1 y1 offset1 = Inr st'"
        by (subst (asm) render.simps) (auto split: sum.splits)
      from read_more_grows [OF rm] have
        tk: "take (length (command_output st)) (command_output st1) = command_output st"
        and le: "length (command_output st) \<le> length (command_output st1)"
        and same: "go_to_end st1 = go_to_end st" "show_title st1 = show_title st"
          "origin_x st1 = origin_x st"
        by simp_all
      have inv: "(x1, y1) = foldl ?adv (0, show_title st1) (take offset1 (command_output st1))"
        using whole by (simp add: off tk same)
      from IH2 [OF _ _ _ _ fin Some False rm _ _ inv rec] "1.prems"(1) le same off dc
      show ?thesis
        by simp
    qed
  qed
qed

lemma render_go_to_end:
  assumes "go_to_end st" and "render ok st 0 (show_title st) 0 = Inr st'"
  shows "\<not> go_to_end st' \<and>
         max_y st' = snd (foldl (\<lambda>xy c. advance c xy) (0, show_title st') (command_output st')) \<and>
         origin_y st' = max_y st' - height st' \<and> origin_x st' = origin_x st"
  using assms by (intro render_go_to_end_inv [of st 0 0 "show_title st" ok st']) simp_all

text \<open>
  Claim C5 does not hold of the code when the output is shorter than the viewport. The
  first run writes thirty empty lines, more than the 24 rows show, so the run is not read
  to its end; \<open>G\<close> is pressed and the interval has passed (three seconds on the clock
  against an interval of two). The next run writes one line: the loop reads it to its end, records \<open>max_y = 3\<close>, clears \<open>go_to_end\<close> and
  sets \<open>origin_y\<close> to \<open>3 - 24\<close>, not to 0.
\<close>

theorem go_to_end_short_output:
  "map_sum id (\<lambda>st. (go_to_end st, max_y st, height st, origin_y st))
     (ticks [(calm_env [10, 10, 10, 10, 10, 10, 10, 10, 10, 10, 10, 10, 10, 10, 10,
                        10, 10, 10, 10, 10, 10, 10, 10, 10, 10, 10, 10, 10, 10, 10]
                (of_char (CHR ''G'')) 3000000)\<lparr>interval_passed := (\<lambda>d i. True)\<rparr>,
             calm_env [0x78, 0x0A] ERR 3000100]
        (loop_entry False False True 0)) =
   Inr (False, 3, 24, - 21)"
  by (simp add: calm_env_def loop_entry_def tick_defs render.simps draw_cells.simps unread_def)

section \<open>The logical cursor\<close>

text \<open>
  What the \<open>FORCE_8BIT\<close> macro comes to at line 331: a cell counts as printable when
  its lowest bit is set.
\<close>

lemma isprint_8bit_low_bit: "isprint_8bit c \<longleftrightarrow> c AND 1 \<noteq> 0"
  by (simp add: isprint_8bit_def c_truth_def A_CHARTEXT_def)

text \<open>
  Claim C6, as stated, fails: replaying \<open>a\<close>, tab, \<open>b\<close>, newline, \<open>c\<close> without a
  title draws \<open>b\<close> in column 9 of row 0, not in column 8, since the tab is met in
  column 1 and adds 8.
\<close>

theorem tab_moves_eight_from_one:
  "fst (draw_cells ((loop_entry False False False 0)\<lparr>show_title := 0, command_output := [0x61, 0x09, 0x62, 0x0A, 0x63]\<rparr>) [] 0 0 0)
     = [(0, 0, 0x61), (0, 9, 0x62), (1, 0, 0x63)] \<and>
   (0, 8, 0x62) \<notin> set (fst (draw_cells ((loop_entry False False False 0)\<lparr>show_title := 0, command_output := [0x61, 0x09, 0x62, 0x0A, 0x63]\<rparr>) [] 0 0 0))"
  by (simp add: loop_entry_def tick_defs draw_cells.simps)

text \<open>
  Claim C6, amended. Take a build without \<open>FORCE_8BIT\<close> and a run read with
  difference highlighting off, so that no cell carries an attribute bit, with the view at
  the origin and a window of at least two output rows and ten columns. When the command
  writes \<open>a\<close>, tab, \<open>b\<close>, newline, \<open>c\<close>, the drawing loop reads the five bytes,
  draws \<open>a\<close> in column 0 and \<open>b\<close> in column 9 of the first output row and \<open>c\<close> in
  column 0 of the next row, and records that next row in \<open>max_y\<close>; replaying the buffer
  it has built leaves the cursor in column 1 of that next row, all five cells consumed.
  Rows are counted from \<open>show_title\<close>: rows 0 and 1 when no title is shown.
\<close>

theorem tab_newline_cursor:
  assumes "command_pipe st = Some \<lparr>pending = [0x61, 0x09, 0x62, 0x0A, 0x63], at_eof = False\<rparr>"
    and "command_output st = []"
    and "\<not> option_differences st" and "\<not> force_8bit st"
    and "origin_x st = 0" and "origin_y st = 0" and "\<not> go_to_end st"
    and "0 \<le> show_title st" and "show_title st + 1 < height st" and "9 < width st"
    and "ok 5"
  shows "render ok st 0 (show_title st) 0 =
           Inr (st\<lparr>command_pipe := Some \<lparr>pending = [], at_eof = True\<rparr>,
                   command_output := [0x61, 0x09, 0x62, 0x0A, 0x63],
                   screen := screen st @ [(show_title st, 0, 0x61), (show_title st, 9, 0x62),
                                          (show_title st + 1, 0, 0x63)],
                   max_y := show_title st + 1\<rparr>) \<and>
         draw_cells
           (st\<lparr>command_pipe := Some \<lparr>pending = [], at_eof = True\<rparr>,
                   command_output := [0x61, 0x09, 0x62, 0x0A, 0x63],
                   screen := screen st @ [(show_title st, 0, 0x61), (show_title st, 9, 0x62),
                                          (show_title st + 1, 0, 0x63)],
                   max_y := show_title st + 1\<rparr>)
           scr 0 (show_title st) 0 =
           (scr @ [(show_title st, 0, 0x61), (show_title st, 9, 0x62), (show_title st + 1, 0, 0x63)],
            1, show_title st + 1, 5, False)"
proof -
  have five: "Suc (Suc (Suc (Suc (Suc 0)))) = 5" by simp
  have replay: "draw_cells
           (st\<lparr>command_pipe := Some \<lparr>pending = [], at_eof = True\<rparr>,
                   command_output := [0x61, 0x09, 0x62, 0x0A, 0x63],
                   screen := screen st @ [(show_title st, 0, 0x61), (show_title st, 9, 0x62),
                                          (show_title st + 1, 0, 0x63)],
                   max_y := show_title st + 1\<rparr>)
           scr 0 (show_title st) 0 =
           (scr @ [(show_title st, 0, 0x61), (show_title st, 9, 0x62), (show_title st + 1, 0, 0x63)],
            1, show_title st + 1, 5, False)" for scr
    using assms
    by (simp add: draw_cells.simps drawn_def advance_def printable_def isprint_def A_CHARTEXT_def
        Let_def five)
  have first: "draw_cells st (screen st) 0 (show_title st) 0 = (screen st, 0, show_title st, 0, False)"
    using assms(2) by (simp add: draw_cells.simps)
  let ?st1 = "st\<lparr>command_pipe := Some \<lparr>pending = [], at_eof = True\<rparr>,
                  command_output := [0x61, 0x09, 0x62, 0x0A, 0x63]\<rparr>"
  have read: "read_more ok \<lparr>pending = [0x61, 0x09, 0x62, 0x0A, 0x63], at_eof = False\<rparr> st =
                Inr ?st1"
    using assms(2,3,11)
    by (simp add: read_more_def fread_128_def append_output_def chtype_of_char_def Let_def five
        split: option.splits)
  have second: "draw_cells ?st1 (screen st) 0 (show_title st) 0 =
           (screen st @ [(show_title st, 0, 0x61), (show_title st, 9, 0x62), (show_title st + 1, 0, 0x63)],
            1, show_title st + 1, 5, False)"
    using assms
    by (simp add: draw_cells.simps drawn_def advance_def printable_def isprint_def A_CHARTEXT_def
        Let_def five)
  have "render ok ?st1 0 (show_title st) 0 =
          Inr (?st1\<lparr>screen := screen st @ [(show_title st, 0, 0x61), (show_title st, 9, 0x62),
                                            (show_title st + 1, 0, 0x63)],
                    max_y := show_title st + 1\<rparr>)"
    using assms(7) by (subst render.simps) (simp add: second)
  then have "render ok st 0 (show_title st) 0 =
          Inr (?st1\<lparr>screen := screen st @ [(show_title st, 0, 0x61), (show_title st, 9, 0x62),
                                            (show_title st + 1, 0, 0x63)],
                    max_y := show_title st + 1\<rparr>)"
    using assms(1) by (subst render.simps) (simp add: first read)
  with replay show ?thesis
    by simp
qed

theorem tab_newline_cursor_witness:
  "map_sum id (\<lambda>s. (command_output s, screen s, max_y s))
     (render (\<lambda>n. True)
        ((loop_entry False False False 0)\<lparr>show_title := 0,
           command_pipe := Some \<lparr>pending = [0x61, 0x09, 0x62, 0x0A, 0x63], at_eof = False\<rparr>\<rparr>) 0 0 0) =
     Inr ([0x61, 0x09, 0x62, 0x0A, 0x63], [(0, 0, 0x61), (0, 9, 0x62), (1, 0, 0x63)], 1) \<and>
   draw_cells ((loop_entry False False False 0)\<lparr>show_title := 0,
        command_pipe := Some \<lparr>pending = [], at_eof = True\<rparr>,
        command_output := [0x61, 0x09, 0x62, 0x0A, 0x63],
        screen := [(0, 0, 0x61), (0, 9, 0x62), (1, 0, 0x63)], max_y := 1\<rparr>) [] 0 0 0 =
     ([(0, 0, 0x61), (0, 9, 0x62), (1, 0, 0x63)], 1, 1, 5, False)"
  using tab_newline_cursor [of "(loop_entry False False False 0)\<lparr>show_title := 0,
           command_pipe := Some \<lparr>pending = [0x61, 0x09, 0x62, 0x0A, 0x63], at_eof = False\<rparr>\<rparr>"
      "\<lambda>n. True" "[]"]
  by (simp add: loop_entry_def)

section \<open>The interval\<close>

lemma interval_max_value: "double_of_uint interval_max = Finite 4294"
  by (simp add: double_of_uint_def interval_max_def)

lemma clamp_interval_range:
  assumes "v \<noteq> NaN"
  shows "double_le (Finite 0.1) (clamp_interval v)"
    and "double_le (clamp_interval v) (Finite 4294)"
    and "double_less v (Finite 0.1) \<Longrightarrow> clamp_interval v = Finite 0.1"
    and "double_less (Finite 4294) v \<Longrightarrow> clamp_interval v = Finite 4294"
    and "double_le (Finite 0.1) v \<Longrightarrow> double_le v (Finite 4294) \<Longrightarrow> clamp_interval v = v"
  using assms by (cases v; simp add: clamp_interval_def interval_max_value)+

text \<open>
  Claim C8 does not hold of the code for NaN. \<open>strtod\<close> reads \<open>nan\<close> as a NaN and
  consumes the whole argument, so there is no usage error; both comparisons of the clamp
  are false for a NaN, and the stored interval is the NaN, which is not in the range.
  (\<open>clamp_interval_range\<close> above: every other value, the infinities included, is
  clamped as the claim says, the upper bound being the integer quotient 4294.)
\<close>

theorem interval_nan_not_clamped:
  "option_n ''nan'' (NaN, []) = Inr NaN \<and>
   \<not> double_le (Finite 0.1) (clamp_interval NaN) \<and>
   \<not> double_le (clamp_interval NaN) (double_of_uint interval_max)"
  by (simp add: option_n_def clamp_interval_def interval_max_value)

end
